theory Spec2Isabelle
  imports Main "HOL-Library.Word"
begin

unbundle bit_operations_syntax

section \<open>Roving tab index: the data model\<close>

text \<open>
  A \<open>Ref\<close> of the source is a React ref object \<open>{ current: HTMLElement | null }\<close>.
  Two things are compared in the reducer: the ref objects themselves (\<open>===\<close> on objects,
  that is identity) and the DOM elements they point at (\<open>ref.current\<close>). A ref is
  therefore modelled by its address, an element by its identity, and the \<open>current\<close>
  fields by a store \<open>cur\<close> from addresses to elements, \<open>None\<close> being \<open>null\<close>.
\<close>

type_synonym ref = nat
type_synonym elem = nat
type_synonym store = "ref \<Rightarrow> elem option"

text \<open>
  \<open>Node.compareDocumentPosition\<close> belongs to the DOM, not to the repository: it is a
  parameter \<open>cdp\<close> of the model, \<open>cdp a b\<close> standing for \<open>a.compareDocumentPosition(b)\<close>,
  a bit mask.
\<close>

type_synonym compare = "elem \<Rightarrow> elem \<Rightarrow> nat"

definition DOCUMENT_POSITION_PRECEDING :: nat where
  "DOCUMENT_POSITION_PRECEDING = 2"

text \<open>
  \<open>activeRef\<close> is declared as a \<open>Ref\<close>, starts as \<open>null\<close> and can become \<open>undefined\<close>
  (an array read out of range); the three kinds of value are kept apart.
\<close>

datatype jsref = Null | Undefined | Obj ref

record IState =
  activeRef :: jsref
  refs :: "ref list"

datatype IAction = Register ref | Unregister ref | SetFocus ref

datatype error = TypeError

definition initialState :: IState where
  "initialState = \<lparr>activeRef = Null, refs = []\<rparr>"

section \<open>Array primitives of the source language\<close>

text \<open>\<open>xs[i]\<close>: \<open>None\<close> is \<open>undefined\<close>, the value of a read out of range.\<close>

definition js_nth :: "'a list \<Rightarrow> int \<Rightarrow> 'a option" where
  "js_nth xs i = (if 0 \<le> i \<and> i < int (length xs) then Some (xs ! nat i) else None)"

text \<open>\<open>xs[i]\<close> where the result is stored in \<open>activeRef\<close>.\<close>

definition js_index :: "ref list \<Rightarrow> int \<Rightarrow> jsref" where
  "js_index xs i = (case js_nth xs i of None \<Rightarrow> Undefined | Some r \<Rightarrow> Obj r)"

text \<open>\<open>xs.findIndex(p)\<close>: the first index whose element satisfies \<open>p\<close>, or \<open>-1\<close>.\<close>

fun findIndex :: "('a \<Rightarrow> bool) \<Rightarrow> 'a list \<Rightarrow> int" where
  "findIndex p [] = - 1"
| "findIndex p (x # xs) =
     (if p x then 0 else (let i = findIndex p xs in if i = - 1 then - 1 else i + 1))"

text \<open>\<open>xs.indexOf(v)\<close> with strict equality; the array holds ref objects only.\<close>

definition indexOf :: "ref list \<Rightarrow> jsref \<Rightarrow> int" where
  "indexOf xs v = findIndex (\<lambda>x. Obj x = v) xs"

text \<open>
  The start position of \<open>xs.splice(start, ...)\<close>: a negative start counts from the end,
  and the result is clamped to the array.
\<close>

definition splice_start :: "'a list \<Rightarrow> int \<Rightarrow> nat" where
  "splice_start xs start =
     (if start < 0 then nat (max (int (length xs) + start) 0)
      else min (nat start) (length xs))"

text \<open>\<open>xs.splice(start, 0, x)\<close>: the array afterwards.\<close>

definition splice_insert :: "'a list \<Rightarrow> int \<Rightarrow> 'a \<Rightarrow> 'a list" where
  "splice_insert xs start x =
     (let k = splice_start xs start in take k xs @ [x] @ drop k xs)"

text \<open>\<open>xs.splice(start, 1)\<close>: the removed elements, and the array afterwards.\<close>

definition splice_removed :: "'a list \<Rightarrow> int \<Rightarrow> 'a list" where
  "splice_removed xs start = (let k = splice_start xs start in take 1 (drop k xs))"

definition splice_remove :: "'a list \<Rightarrow> int \<Rightarrow> 'a list" where
  "splice_remove xs start = (let k = splice_start xs start in take k xs @ drop (Suc k) xs)"

section \<open>The reducer\<close>

text \<open>
  The reducer assigns to the fields of the state it is given, splices its array in place
  and returns a copy \<open>{ ...state }\<close>, or the state itself where it changes nothing. The
  model is the value returned; \<open>Inl\<close> is a throw, which leaves the state as it was,
  since every assignment of the \<open>Register\<close> case comes after the loop.

  The binary search of \<open>Type.Register\<close>, lines 93 to 106. The result is \<open>Inr None\<close> when
  the loop leaves the reducer with \<open>return state\<close>, \<open>Inr (Some index)\<close> when the loop
  ends with that value of \<open>index\<close>, and \<open>Inl TypeError\<close> when a property of \<open>null\<close> or
  \<open>undefined\<close> is read, or \<open>compareDocumentPosition\<close> is given \<open>null\<close>.
\<close>

function search ::
  "compare \<Rightarrow> store \<Rightarrow> ref list \<Rightarrow> ref \<Rightarrow> int \<Rightarrow> int \<Rightarrow> int \<Rightarrow> error + int option" where
  "search cdp cur rs r left right index =
     (if left \<le> right then
        (case js_nth rs ((left + right) div 2) of
           None \<Rightarrow> Inl TypeError
         | Some x \<Rightarrow>
            if cur x = cur r then Inr None
            else (case cur r of
                    None \<Rightarrow> Inl TypeError
                  | Some p \<Rightarrow>
                     (case cur x of
                        None \<Rightarrow> Inl TypeError
                      | Some e \<Rightarrow>
                         if cdp p e AND DOCUMENT_POSITION_PRECEDING \<noteq> 0
                         then search cdp cur rs r ((left + right) div 2 + 1) right
                                ((left + right) div 2)
                         else search cdp cur rs r left ((left + right) div 2 - 1)
                                ((left + right) div 2))))
      else Inr (Some index))"
  by pat_completeness auto
termination
  by (relation "measure (\<lambda>(cdp, cur, rs, r, left, right, index). nat (right - left + 1))")
     auto

declare search.simps [simp del]

fun reducer :: "compare \<Rightarrow> store \<Rightarrow> IState \<Rightarrow> IAction \<Rightarrow> error + IState" where
  "reducer cdp cur state (Register r) =
     (if length (refs state) = 0 then Inr \<lparr>activeRef = Obj r, refs = [r]\<rparr>
      else
        (case search cdp cur (refs state) r 0 (int (length (refs state)) - 1)
                (int (length (refs state))) of
           Inl e \<Rightarrow> Inl e
         | Inr None \<Rightarrow> Inr state
         | Inr (Some index) \<Rightarrow> Inr (state\<lparr>refs := splice_insert (refs state) index r\<rparr>)))"
| "reducer cdp cur state (Unregister r) =
     (let oldIndex = findIndex (\<lambda>x. x = r) (refs state) in
      if oldIndex = - 1 then Inr state
      else
        (let removed = splice_removed (refs state) oldIndex;
             refs' = splice_remove (refs state) oldIndex;
             len = int (length refs')
         in if js_index removed 0 = activeRef state
            then Inr \<lparr>activeRef = (if oldIndex \<ge> len then js_index refs' (len - 1)
                                   else js_index refs' oldIndex),
                      refs = refs'\<rparr>
            else Inr (state\<lparr>refs := refs'\<rparr>)))"
| "reducer cdp cur state (SetFocus r) = Inr (state\<lparr>activeRef := Obj r\<rparr>)"

text \<open>A run of the reducer over a list of actions, from the left; a throw ends it.\<close>

fun dispatchAll :: "compare \<Rightarrow> store \<Rightarrow> IState \<Rightarrow> IAction list \<Rightarrow> error + IState" where
  "dispatchAll cdp cur state [] = Inr state"
| "dispatchAll cdp cur state (a # as) =
     (case reducer cdp cur state a of
        Inl e \<Rightarrow> Inl e
      | Inr state' \<Rightarrow> dispatchAll cdp cur state' as)"

section \<open>The key handler of the provider\<close>

text \<open>
  Modelled from the spec: the constants \<open>Key.HOME\<close>, \<open>Key.END\<close>, \<open>Key.ARROW_UP\<close> and
  \<open>Key.ARROW_DOWN\<close> of the module \<open>Keyboard\<close>, which is not among the sources; the spec
  names the keys Home, End, ArrowUp and ArrowDown.
\<close>

definition Key_HOME :: string where "Key_HOME = ''Home''"
definition Key_END :: string where "Key_END = ''End''"
definition Key_ARROW_UP :: string where "Key_ARROW_UP = ''ArrowUp''"
definition Key_ARROW_DOWN :: string where "Key_ARROW_DOWN = ''ArrowDown''"

text \<open>
  What one call of \<open>onKeyDownHandler\<close> does: \<open>focused\<close> is the ref whose element received
  \<open>focus()\<close>, if any; \<open>handled\<close> says that \<open>preventDefault\<close> and \<open>stopPropagation\<close> were
  called on the event; \<open>delegated\<close> says that the event was passed on to the \<open>onKeyDown\<close>
  property. The handler reads the registry and has no path that dispatches an action or
  assigns to the state.
\<close>

record outcome =
  focused :: "ref option"
  handled :: bool
  delegated :: bool

text \<open>\<open>refs[i].current.focus()\<close>; reading through \<open>undefined\<close> or \<open>null\<close> throws.\<close>

definition focus_at :: "store \<Rightarrow> ref list \<Rightarrow> int \<Rightarrow> error + ref option" where
  "focus_at cur rs i =
     (case js_nth rs i of
        None \<Rightarrow> Inl TypeError
      | Some x \<Rightarrow> (case cur x of None \<Rightarrow> Inl TypeError | Some e \<Rightarrow> Inr (Some x)))"

text \<open>The \<open>switch (ev.key)\<close> of lines 164 to 208: the ref focused, if the key was handled.\<close>

definition keySwitch ::
  "bool \<Rightarrow> bool \<Rightarrow> store \<Rightarrow> IState \<Rightarrow> string \<Rightarrow> error + (ref option) option" where
  "keySwitch handleHomeEnd handleUpDown cur state key =
     (if key = Key_HOME then
        (if handleHomeEnd then
           (if length (refs state) > 0 then map_sum id Some (focus_at cur (refs state) 0)
            else Inr (Some None))
         else Inr None)
      else if key = Key_END then
        (if handleHomeEnd then
           (if length (refs state) > 0
            then map_sum id Some (focus_at cur (refs state) (int (length (refs state)) - 1))
            else Inr (Some None))
         else Inr None)
      else if key = Key_ARROW_UP then
        (if handleUpDown then
           (if length (refs state) > 0 then
              (let idx = indexOf (refs state) (activeRef state) in
               if idx > 0 then map_sum id Some (focus_at cur (refs state) (idx - 1))
               else Inr (Some None))
            else Inr (Some None))
         else Inr None)
      else if key = Key_ARROW_DOWN then
        (if handleUpDown then
           (if length (refs state) > 0 then
              (let idx = indexOf (refs state) (activeRef state) in
               if idx < int (length (refs state)) - 1
               then map_sum id Some (focus_at cur (refs state) (idx + 1))
               else Inr (Some None))
            else Inr (Some None))
         else Inr None)
      else Inr None)"

text \<open>
  \<open>onKeyDownHandler\<close>: \<open>handleHomeEnd\<close> and \<open>handleUpDown\<close> are the properties of the
  provider (an absent property is false), \<open>onKeyDown\<close> says whether that property was
  given, \<open>tagName\<close> is \<open>ev.target.tagName\<close> and \<open>key\<close> is \<open>ev.key\<close>.
\<close>

definition onKeyDownHandler ::
  "bool \<Rightarrow> bool \<Rightarrow> bool \<Rightarrow> store \<Rightarrow> IState \<Rightarrow> string \<Rightarrow> string \<Rightarrow> error + outcome" where
  "onKeyDownHandler handleHomeEnd handleUpDown onKeyDown cur state tagName key =
     (case (if tagName \<noteq> ''INPUT'' \<and> tagName \<noteq> ''TEXTAREA''
            then keySwitch handleHomeEnd handleUpDown cur state key
            else Inr None) of
        Inl e \<Rightarrow> Inl e
      | Inr (Some f) \<Rightarrow> Inr \<lparr>focused = f, handled = True, delegated = False\<rparr>
      | Inr None \<Rightarrow> Inr \<lparr>focused = None, handled = False, delegated = onKeyDown\<rparr>)"

section \<open>Documents\<close>

text \<open>
  The document order seen through \<open>compareDocumentPosition\<close>: \<open>pos\<close> numbers the elements
  in document order, and \<open>a.compareDocumentPosition(b)\<close> has the bit
  \<open>DOCUMENT_POSITION_PRECEDING\<close> exactly when \<open>b\<close> comes before \<open>a\<close>.
\<close>

definition document_order :: "compare \<Rightarrow> (elem \<Rightarrow> nat) \<Rightarrow> bool" where
  "document_order cdp pos \<longleftrightarrow>
     inj pos \<and> (\<forall>a b. (cdp a b AND DOCUMENT_POSITION_PRECEDING \<noteq> 0) = (pos b < pos a))"

text \<open>Every ref of the list points at an element.\<close>

definition mounted :: "store \<Rightarrow> ref list \<Rightarrow> bool" where
  "mounted cur rs \<longleftrightarrow> (\<forall>r \<in> set rs. cur r \<noteq> None)"

text \<open>The refs are in document order, strictly.\<close>

definition in_document_order :: "store \<Rightarrow> (elem \<Rightarrow> nat) \<Rightarrow> ref list \<Rightarrow> bool" where
  "in_document_order cur pos rs \<longleftrightarrow>
     mounted cur rs \<and> sorted_wrt (\<lambda>r s. pos (the (cur r)) < pos (the (cur s))) rs"

text \<open>The invariant of the spec on \<open>activeRef\<close>: no ref in an empty registry, a member otherwise.\<close>

definition active_valid :: "IState \<Rightarrow> bool" where
  "active_valid state \<longleftrightarrow>
     (case activeRef state of
        Obj r \<Rightarrow> r \<in> set (refs state)
      | _ \<Rightarrow> refs state = [])"

text \<open>
  A document of the elements \<open>0, 1, 2, ...\<close> in this order, each held by the ref of the
  same number: the masks are \<open>DOCUMENT_POSITION_PRECEDING\<close> (2), \<open>DOCUMENT_POSITION_FOLLOWING\<close>
  (4) and 0 for the element itself.
\<close>

definition line_cdp :: compare where
  "line_cdp a b = (if b < a then 2 else if a < b then 4 else 0)"

definition line_cur :: store where
  "line_cur r = Some r"

section \<open>Facts about the array primitives\<close>

lemma findIndex_ge: "- 1 \<le> findIndex p xs"
  by (induction xs) (auto simp: Let_def)

lemma findIndex_lt: "findIndex p xs < int (length xs)"
  by (induction xs) (auto simp: Let_def)

lemma findIndex_absent: "(findIndex p xs = - 1) = (\<forall>x \<in> set xs. \<not> p x)"
proof (induction xs)
  case Nil
  show ?case by simp
next
  case (Cons x xs)
  have "findIndex p xs + 1 \<noteq> - 1"
    using findIndex_ge [of p xs] by arith
  with Cons show ?case by (auto simp: Let_def)
qed

lemma findIndex_nth:
  "findIndex p xs \<noteq> - 1 \<Longrightarrow> p (xs ! nat (findIndex p xs))"
proof (induction xs)
  case Nil
  then show ?case by simp
next
  case (Cons x xs)
  show ?case
  proof (cases "p x")
    case True
    then show ?thesis by simp
  next
    case False
    with Cons.prems have ne: "findIndex p xs \<noteq> - 1"
      by (auto simp: Let_def split: if_splits)
    then have "0 \<le> findIndex p xs"
      using findIndex_ge [of p xs] by arith
    then have "nat (findIndex p xs + 1) = Suc (nat (findIndex p xs))"
      by arith
    with False ne Cons.IH show ?thesis by (simp add: Let_def)
  qed
qed

lemma findIndex_remove1:
  "r \<in> set xs \<Longrightarrow>
   take (nat (findIndex (\<lambda>x. x = r) xs)) xs @ drop (Suc (nat (findIndex (\<lambda>x. x = r) xs))) xs
     = remove1 r xs"
proof (induction xs)
  case Nil
  then show ?case by simp
next
  case (Cons x xs)
  show ?case
  proof (cases "x = r")
    case True
    then show ?thesis by simp
  next
    case False
    with Cons.prems have mem: "r \<in> set xs" by simp
    then have ne: "findIndex (\<lambda>x. x = r) xs \<noteq> - 1"
      by (simp add: findIndex_absent)
    then have "0 \<le> findIndex (\<lambda>x. x = r) xs"
      using findIndex_ge [of "\<lambda>x. x = r" xs] by arith
    then have "nat (findIndex (\<lambda>x. x = r) xs + 1) = Suc (nat (findIndex (\<lambda>x. x = r) xs))"
      by arith
    with False ne Cons.IH [OF mem] show ?thesis by (simp add: Let_def)
  qed
qed

lemma splice_start_findIndex:
  "findIndex p xs \<noteq> - 1 \<Longrightarrow> splice_start xs (findIndex p xs) = nat (findIndex p xs)"
  using findIndex_ge [of p xs] findIndex_lt [of p xs]
  by (auto simp: splice_start_def)

lemma splice_removed_findIndex:
  assumes "findIndex p xs \<noteq> - 1"
  shows "splice_removed xs (findIndex p xs) = [xs ! nat (findIndex p xs)]"
proof -
  have "nat (findIndex p xs) < length xs"
    using assms findIndex_ge [of p xs] findIndex_lt [of p xs] by arith
  then show ?thesis
    using assms by (simp add: splice_removed_def splice_start_findIndex take_Suc_conv_app_nth hd_drop_conv_nth take_Suc)
qed

lemma js_index_single: "js_index [x] 0 = Obj x"
  by (simp add: js_index_def js_nth_def)

lemma js_index_in_range:
  "0 \<le> i \<Longrightarrow> i < int (length xs) \<Longrightarrow> js_index xs i = Obj (xs ! nat i)"
  by (simp add: js_index_def js_nth_def)

lemma js_index_out_of_range:
  "i < 0 \<or> int (length xs) \<le> i \<Longrightarrow> js_index xs i = Undefined"
  by (auto simp: js_index_def js_nth_def)

lemma indexOf_bounds: "- 1 \<le> indexOf xs v \<and> indexOf xs v < int (length xs)"
  by (simp add: indexOf_def findIndex_ge findIndex_lt)

section \<open>Steps of the reducer\<close>

text \<open>
  \<open>Unregister\<close> of a ref that is in the list, with the two \<open>splice\<close> results written
  as list operations; the replacement of the active ref is always a ref of the rest, or
  \<open>undefined\<close> when nothing is left.
\<close>

lemma unregister_present:
  assumes "r \<in> set (refs state)"
  shows "reducer cdp cur state (Unregister r) =
           (let i = findIndex (\<lambda>x. x = r) (refs state);
                rest = remove1 r (refs state)
            in if Obj r = activeRef state
               then Inr \<lparr>activeRef = (if int (length rest) \<le> i
                                       then js_index rest (int (length rest) - 1)
                                       else js_index rest i),
                         refs = rest\<rparr>
               else Inr (state\<lparr>refs := rest\<rparr>))"
proof -
  let ?i = "findIndex (\<lambda>x. x = r) (refs state)"
  have ne: "?i \<noteq> - 1"
    using assms by (simp add: findIndex_absent)
  have removed: "splice_removed (refs state) ?i = [r]"
    using findIndex_nth [OF ne] by (simp add: splice_removed_findIndex [OF ne])
  have rest: "splice_remove (refs state) ?i = remove1 r (refs state)"
    by (simp add: splice_remove_def splice_start_findIndex [OF ne] findIndex_remove1 [OF assms])
  show ?thesis
    using ne by (simp add: Let_def removed rest js_index_single)
qed

lemma replacement_valid:
  assumes "0 \<le> i"
  shows "active_valid \<lparr>activeRef = (if int (length rest) \<le> i
                                      then js_index rest (int (length rest) - 1)
                                      else js_index rest i),
                        refs = rest\<rparr>"
proof (cases "rest = []")
  case True
  then show ?thesis using assms by (simp add: active_valid_def js_index_out_of_range)
next
  case False
  then have len: "0 < length rest" by simp
  show ?thesis
  proof (cases "int (length rest) \<le> i")
    case True
    have "js_index rest (int (length rest) - 1) = Obj (rest ! nat (int (length rest) - 1))"
      using len by (intro js_index_in_range) auto
    moreover have "nat (int (length rest) - 1) < length rest"
      using len by arith
    ultimately show ?thesis using True by (simp add: active_valid_def)
  next
    case False
    then have "nat i < length rest" using assms by arith
    then show ?thesis using False assms by (simp add: active_valid_def js_index_in_range)
  qed
qed

lemma set_splice_insert: "set (splice_insert xs i x) = insert x (set xs)"
proof -
  have "set (take k xs) \<union> set (drop k xs) = set xs" for k
    by (metis append_take_drop_id set_append)
  then show ?thesis
    by (auto simp: splice_insert_def Let_def)
qed

section \<open>Properties of the reducer\<close>

text \<open>
  C7. In a state whose list of refs is empty, \<open>Register\<close> makes the ref the only entry
  of the list and the active ref: the first ref that registers becomes active. The
  \<open>current\<close> fields are not read on this path, so nothing can throw.
\<close>

theorem register_first:
  "refs state = [] \<Longrightarrow>
   reducer cdp cur state (Register r) = Inr \<lparr>activeRef = Obj r, refs = [r]\<rparr>"
  by simp

theorem register_first_witness:
  "refs initialState = [] \<and>
   reducer line_cdp line_cur initialState (Register 5) = Inr \<lparr>activeRef = Obj 5, refs = [5]\<rparr>"
  using register_first [of initialState line_cdp line_cur 5]
  by (simp add: initialState_def)

text \<open>
  The sentence of the spec behind C2 says that \<open>SetFocus\<close> with a ref that is not
  registered is ignored. The reducer has no test of membership in that case: from the
  initial state, \<open>SetFocus\<close> with any ref changes the state.
\<close>

theorem setFocus_unregistered_counterexample:
  "0 \<notin> set (refs initialState) \<and>
   reducer line_cdp line_cur initialState (SetFocus 0) \<noteq> Inr initialState"
  by (simp add: initialState_def)

text \<open>
  C2, as the code has it. With a ref that is not in the list, neither action throws;
  \<open>Unregister\<close> returns the state as it was, and \<open>SetFocus\<close> makes the ref the active
  ref and leaves the list alone.
\<close>

theorem unregistered_handle_operations:
  assumes "r \<notin> set (refs state)"
  shows "reducer cdp cur state (Unregister r) = Inr state \<and>
         reducer cdp cur state (SetFocus r) = Inr (state\<lparr>activeRef := Obj r\<rparr>)"
  using assms by (simp add: findIndex_absent Let_def)

theorem unregistered_handle_operations_witness:
  "7 \<notin> set (refs \<lparr>activeRef = Obj 3, refs = [3, 4]\<rparr>) \<and>
   reducer line_cdp line_cur \<lparr>activeRef = Obj 3, refs = [3, 4]\<rparr> (Unregister 7)
     = Inr \<lparr>activeRef = Obj 3, refs = [3, 4]\<rparr> \<and>
   reducer line_cdp line_cur \<lparr>activeRef = Obj 3, refs = [3, 4]\<rparr> (SetFocus 7)
     = Inr \<lparr>activeRef = Obj 7, refs = [3, 4]\<rparr>"
  using unregistered_handle_operations [of 7 "\<lparr>activeRef = Obj 3, refs = [3, 4]\<rparr>" line_cdp line_cur]
  by simp

text \<open>
  C3. When the active ref is in the list and is unregistered, its first occurrence is
  taken out of the list, and the active ref becomes the ref that now stands at the index
  of the removed one, or the last ref when that index is past the end, or no ref at
  all when the list is now empty. The value in the last case is \<open>undefined\<close>, the
  result of reading the empty array at \<open>-1\<close>; it is what the spec calls null, a state
  with no active handle. In every case the new state has an active ref that is
  registered, or no active ref and an empty list.
\<close>

theorem unregister_active:
  assumes "activeRef state = Obj r" and "r \<in> set (refs state)"
  shows "let i = findIndex (\<lambda>x. x = r) (refs state);
             rest = remove1 r (refs state);
             active = (if rest = [] then Undefined
                       else if i < int (length rest) then Obj (rest ! nat i)
                       else Obj (last rest))
         in reducer cdp cur state (Unregister r) = Inr \<lparr>activeRef = active, refs = rest\<rparr> \<and>
            active_valid \<lparr>activeRef = active, refs = rest\<rparr>"
proof -
  let ?i = "findIndex (\<lambda>x. x = r) (refs state)"
  let ?rs = "remove1 r (refs state)"
  let ?a = "if int (length ?rs) \<le> ?i then js_index ?rs (int (length ?rs) - 1)
            else js_index ?rs ?i"
  let ?b = "if ?rs = [] then Undefined
            else if ?i < int (length ?rs) then Obj (?rs ! nat ?i) else Obj (last ?rs)"
  have ne: "?i \<noteq> - 1"
    using assms(2) by (simp add: findIndex_absent)
  have i0: "0 \<le> ?i"
    using ne findIndex_ge [of "\<lambda>x. x = r" "refs state"] by arith
  have step: "reducer cdp cur state (Unregister r) = Inr \<lparr>activeRef = ?a, refs = ?rs\<rparr>"
    using assms(1) by (simp add: unregister_present [OF assms(2)] Let_def del: reducer.simps)
  have val: "?a = ?b"
  proof (cases "?rs = []")
    case True
    then show ?thesis using i0 by (simp add: js_index_out_of_range)
  next
    case False
    then have len: "0 < length ?rs" by simp
    show ?thesis
    proof (cases "?i < int (length ?rs)")
      case True
      then show ?thesis using False i0 by (simp add: js_index_in_range)
    next
      case False
      have "js_index ?rs (int (length ?rs) - 1) = Obj (?rs ! nat (int (length ?rs) - 1))"
        using len by (intro js_index_in_range) auto
      moreover have "nat (int (length ?rs) - 1) = length ?rs - 1" by arith
      ultimately show ?thesis
        using False \<open>?rs \<noteq> []\<close> by (simp add: last_conv_nth)
    qed
  qed
  have valid: "active_valid \<lparr>activeRef = ?a, refs = ?rs\<rparr>"
    by (rule replacement_valid [OF i0])
  show ?thesis
    unfolding Let_def using step val valid by simp
qed

theorem unregister_active_witness:
  "activeRef \<lparr>activeRef = Obj 2, refs = [0, 1, 2]\<rparr> = Obj 2 \<and>
   2 \<in> set (refs \<lparr>activeRef = Obj 2, refs = [0, 1, 2]\<rparr>) \<and>
   reducer line_cdp line_cur \<lparr>activeRef = Obj 2, refs = [0, 1, 2]\<rparr> (Unregister 2)
     = Inr \<lparr>activeRef = Obj 1, refs = [0, 1]\<rparr> \<and>
   active_valid \<lparr>activeRef = Obj 1, refs = [0, 1]\<rparr>"
  using unregister_active [of "\<lparr>activeRef = Obj 2, refs = [0, 1, 2]\<rparr>" 2 line_cdp line_cur]
  by (simp add: Let_def del: reducer.simps)

section \<open>The invariant on the active ref\<close>

text \<open>
  The half of the invariant that concerns \<open>activeRef\<close> holds in the initial state and
  is kept by every step of the reducer that returns, provided \<open>SetFocus\<close> is given a
  registered ref.
\<close>

lemma active_valid_nonempty:
  "active_valid state \<Longrightarrow> refs state \<noteq> [] \<Longrightarrow> \<exists>a. activeRef state = Obj a \<and> a \<in> set (refs state)"
  by (cases "activeRef state") (auto simp: active_valid_def)

lemma active_valid_register:
  assumes "active_valid state" and "reducer cdp cur state (Register r) = Inr state'"
  shows "active_valid state'"
proof (cases "refs state = []")
  case True
  with assms(2) show ?thesis by (auto simp: active_valid_def)
next
  case False
  then obtain a where a: "activeRef state = Obj a" "a \<in> set (refs state)"
    using active_valid_nonempty [OF assms(1)] by blast
  from assms(2) False consider "state' = state"
    | index where "state' = state\<lparr>refs := splice_insert (refs state) index r\<rparr>"
    by (auto split: sum.splits option.splits)
  then show ?thesis
  proof cases
    case 1
    with assms(1) show ?thesis by simp
  next
    case 2
    with a show ?thesis by (simp add: active_valid_def set_splice_insert)
  qed
qed

lemma active_valid_unregister:
  assumes "active_valid state" and "reducer cdp cur state (Unregister r) = Inr state'"
  shows "active_valid state'"
proof (cases "r \<in> set (refs state)")
  case False
  then have "reducer cdp cur state (Unregister r) = Inr state"
    by (simp add: findIndex_absent Let_def)
  with assms show ?thesis by simp
next
  case True
  let ?i = "findIndex (\<lambda>x. x = r) (refs state)"
  have i0: "0 \<le> ?i"
    using True findIndex_ge [of "\<lambda>x. x = r" "refs state"] findIndex_absent [of "\<lambda>x. x = r" "refs state"]
    by (smt (verit))
  from True obtain a where a: "activeRef state = Obj a" "a \<in> set (refs state)"
    using active_valid_nonempty [OF assms(1)] by fastforce
  show ?thesis
  proof (cases "a = r")
    case True
    with a assms(2) \<open>r \<in> set (refs state)\<close> show ?thesis
      using replacement_valid [OF i0, of "remove1 r (refs state)"]
      by (simp add: unregister_present Let_def del: reducer.simps)
  next
    case False
    then have "a \<in> set (remove1 r (refs state))" using a(2) by simp
    with a False assms(2) \<open>r \<in> set (refs state)\<close> show ?thesis
      by (auto simp: unregister_present Let_def active_valid_def simp del: reducer.simps)
  qed
qed

lemma active_valid_setFocus:
  assumes "r \<in> set (refs state)" and "reducer cdp cur state (SetFocus r) = Inr state'"
  shows "active_valid state'"
  using assms by (auto simp: active_valid_def)

lemma reducer_active_valid:
  assumes "active_valid state"
    and "reducer cdp cur state action = Inr state'"
    and "\<And>r. action = SetFocus r \<Longrightarrow> r \<in> set (refs state)"
  shows "active_valid state'"
proof (cases action)
  case (Register r)
  with assms(1,2) show ?thesis using active_valid_register by blast
next
  case (Unregister r)
  with assms(1,2) show ?thesis using active_valid_unregister by blast
next
  case (SetFocus r)
  with assms(2,3) show ?thesis using active_valid_setFocus by blast
qed

lemma initialState_active_valid: "active_valid initialState"
  by (simp add: active_valid_def initialState_def)

section \<open>Document order\<close>

text \<open>
  \<open>Unregister\<close> keeps a list that is in document order in document order. \<open>Register\<close>
  of a ref that is already in such a list finds it by the binary search and returns
  the state as it was.
\<close>

lemma sorted_wrt_remove1: "sorted_wrt P xs \<Longrightarrow> sorted_wrt P (remove1 x xs)"
proof (induction xs)
  case Nil
  then show ?case by simp
next
  case (Cons y ys)
  have "set (remove1 x ys) \<subseteq> set ys" by (rule set_remove1_subset)
  with Cons show ?case by auto
qed

lemma in_document_order_unregister:
  assumes "in_document_order cur pos (refs state)"
    and "reducer cdp cur state (Unregister r) = Inr state'"
  shows "in_document_order cur pos (refs state')"
proof (cases "r \<in> set (refs state)")
  case False
  then have "reducer cdp cur state (Unregister r) = Inr state"
    by (simp add: findIndex_absent Let_def)
  with assms show ?thesis by simp
next
  case True
  have "refs state' = remove1 r (refs state)"
    using assms(2) by (auto simp: unregister_present [OF True] Let_def simp del: reducer.simps split: if_splits)
  moreover have "mounted cur (remove1 r (refs state))"
    using assms(1) set_remove1_subset [of r "refs state"]
    by (auto simp: in_document_order_def mounted_def)
  ultimately show ?thesis
    using assms(1) by (simp add: in_document_order_def sorted_wrt_remove1)
qed

lemma in_document_order_nth:
  assumes "in_document_order cur pos rs" and "i < j" and "j < length rs"
  shows "pos (the (cur (rs ! i))) < pos (the (cur (rs ! j)))"
proof -
  from assms(1) have "sorted_wrt (\<lambda>r s. pos (the (cur r)) < pos (the (cur s))) rs"
    by (simp add: in_document_order_def)
  from sorted_wrt_nth_less [OF this assms(2,3)] show ?thesis .
qed

lemma search_present:
  assumes ord: "document_order cdp pos"
    and srt: "in_document_order cur pos rs"
    and j: "j < length rs"
  shows "0 \<le> left \<Longrightarrow> left \<le> int j \<Longrightarrow> int j \<le> right \<Longrightarrow> right < int (length rs) \<Longrightarrow>
         search cdp cur rs (rs ! j) left right index = Inr None"
proof (induction "nat (right - left + 1)" arbitrary: left right index rule: less_induct)
  case less
  let ?m = "(left + right) div 2"
  let ?x = "rs ! nat ?m"
  have m: "left \<le> ?m" "?m \<le> right" using less.prems by arith+
  then have m_range: "0 \<le> ?m" "?m < int (length rs)" using less.prems by arith+
  then have nth: "js_nth rs ?m = Some ?x" by (simp add: js_nth_def)
  have mlen: "nat ?m < length rs" using m_range by arith
  have mnt: "mounted cur rs" using srt by (simp add: in_document_order_def)
  obtain p where p: "cur (rs ! j) = Some p"
    using mnt nth_mem [OF j] by (auto simp: mounted_def)
  obtain e where e: "cur ?x = Some e"
    using mnt nth_mem [OF mlen] by (auto simp: mounted_def)
  show ?case
  proof (cases "e = p")
    case True
    then show ?thesis
      using less.prems nth p e by (subst search.simps) simp
  next
    case False
    show ?thesis
    proof (cases "pos e < pos p")
      case True
      have "nat ?m < j"
      proof (rule ccontr)
        assume "\<not> nat ?m < j"
        then have "j < nat ?m" using False p e by (cases "nat ?m = j") auto
        from in_document_order_nth [OF srt this mlen] show False
          using True p e by simp
      qed
      then have bounds: "?m + 1 \<le> int j" using m_range by arith
      have dec: "nat (right - (?m + 1) + 1) < nat (right - left + 1)" using m less.prems by arith
      have "0 \<le> ?m + 1" using m_range by arith
      from less.hyps [OF dec this bounds less.prems(3,4)]
      have "search cdp cur rs (rs ! j) (?m + 1) right ?m = Inr None" .
      moreover have "cdp p e AND DOCUMENT_POSITION_PRECEDING \<noteq> 0"
        using ord True by (simp add: document_order_def)
      ultimately show ?thesis
        using less.prems nth p e False by (subst search.simps) simp
    next
      case nlt: False
      have "pos e \<noteq> pos p" using ord False by (auto simp: document_order_def inj_def)
      with nlt have gt: "pos p < pos e" by arith
      have "j < nat ?m"
      proof (rule ccontr)
        assume "\<not> j < nat ?m"
        then have "nat ?m < j" using False p e by (cases "nat ?m = j") auto
        from in_document_order_nth [OF srt this j] show False
          using gt p e by simp
      qed
      then have bounds: "int j \<le> ?m - 1" by arith
      have dec: "nat ((?m - 1) - left + 1) < nat (right - left + 1)" using m less.prems bounds by arith
      have "?m - 1 < int (length rs)" using m_range by arith
      from less.hyps [OF dec less.prems(1,2) bounds this]
      have "search cdp cur rs (rs ! j) left (?m - 1) ?m = Inr None" .
      moreover have "\<not> cdp p e AND DOCUMENT_POSITION_PRECEDING \<noteq> 0"
        using ord nlt by (simp add: document_order_def)
      ultimately show ?thesis
        using less.prems nth p e False by (subst search.simps) simp
    qed
  qed
qed

lemma register_present_in_order:
  assumes "document_order cdp pos"
    and "in_document_order cur pos (refs state)"
    and "r \<in> set (refs state)"
  shows "reducer cdp cur state (Register r) = Inr state"
proof -
  from assms(3) obtain j where j: "j < length (refs state)" "refs state ! j = r"
    by (auto simp: in_set_conv_nth)
  have "search cdp cur (refs state) (refs state ! j) 0 (int (length (refs state)) - 1)
          (int (length (refs state))) = Inr None"
    using j(1) by (intro search_present [OF assms(1,2) j(1)]) auto
  then show ?thesis using j by auto
qed

section \<open>The insertion index of \<open>Register\<close>\<close>

text \<open>
  The loop of \<open>Register\<close> leaves in \<open>index\<close> the last midpoint it looked at. When the
  last comparison found that the element there precedes the new one, the new ref belongs
  after it, at \<open>index + 1\<close>, which is the value of \<open>left\<close>; the reducer inserts at
  \<open>index\<close>, before it. The three evaluations below run the reducer from the initial
  state in a document whose elements are \<open>0, 1, 2\<close> in this order.
\<close>

lemmas eval_defs = initialState_def search.simps js_nth_def line_cdp_def line_cur_def
  splice_insert_def splice_start_def DOCUMENT_POSITION_PRECEDING_def

lemma line_document_order: "document_order line_cdp id"
  by (auto simp: document_order_def line_cdp_def DOCUMENT_POSITION_PRECEDING_def)

text \<open>
  C1. The invariant of the spec says that the list of refs is sorted by document
  position in every reachable state. Registering the element \<open>0\<close> and then the element
  \<open>1\<close>, which follows it in the document, gives the list \<open>[1, 0]\<close>.
\<close>

theorem register_breaks_document_order:
  "document_order line_cdp id \<and>
   dispatchAll line_cdp line_cur initialState [Register 0, Register 1]
     = Inr \<lparr>activeRef = Obj 0, refs = [1, 0]\<rparr> \<and>
   \<not> in_document_order line_cur id [1, 0]"
  by (simp add: line_document_order eval_defs in_document_order_def)

text \<open>
  C4. Registering distinct refs is said to give a list in document order, whatever the
  order of registration. Registering \<open>0\<close>, \<open>1\<close> and \<open>2\<close>, in document order, gives
  \<open>[1, 2, 0]\<close>.
\<close>

theorem register_ascending_not_sorted:
  "document_order line_cdp id \<and> distinct [0, 1, 2 :: ref] \<and>
   dispatchAll line_cdp line_cur initialState [Register 0, Register 1, Register 2]
     = Inr \<lparr>activeRef = Obj 0, refs = [1, 2, 0]\<rparr> \<and>
   \<not> in_document_order line_cur id [1, 2, 0]"
  by (simp add: line_document_order eval_defs in_document_order_def)

text \<open>
  C6. Registering a ref that is already in the list is said to change nothing. The
  test for that is part of the binary search, which finds the ref only in a sorted
  list: in the state reached by registering \<open>0\<close> and \<open>1\<close>, registering \<open>0\<close> again
  inserts it a second time.
\<close>

theorem register_twice_duplicates:
  "dispatchAll line_cdp line_cur initialState [Register 0, Register 1]
     = Inr \<lparr>activeRef = Obj 0, refs = [1, 0]\<rparr> \<and>
   0 \<in> set (refs \<lparr>activeRef = Obj 0, refs = [1, 0]\<rparr>) \<and>
   reducer line_cdp line_cur \<lparr>activeRef = Obj 0, refs = [1, 0]\<rparr> (Register 0)
     = Inr \<lparr>activeRef = Obj 0, refs = [0, 1, 0]\<rparr>"
  by (simp add: eval_defs)

section \<open>Properties of the key handler\<close>

lemmas key_defs = Key_HOME_def Key_END_def Key_ARROW_UP_def Key_ARROW_DOWN_def

lemma focus_at_mounted:
  "0 \<le> i \<Longrightarrow> i < int (length rs) \<Longrightarrow> mounted cur rs \<Longrightarrow>
   focus_at cur rs i = Inr (Some (rs ! nat i))"
  by (auto simp: focus_at_def js_nth_def mounted_def split: option.splits)

text \<open>
  C10. When the target of the event is an \<open>INPUT\<close> or a \<open>TEXTAREA\<close> element, the
  handler focuses nothing and does not mark the event as handled, whatever the key and
  the properties of the provider; the event goes to the \<open>onKeyDown\<close> property when there
  is one. The handler never writes the registry, which changes after a key press only
  through a focus call, and none is made here.
\<close>

theorem input_target_ignored:
  "tagName = ''INPUT'' \<or> tagName = ''TEXTAREA'' \<Longrightarrow>
   onKeyDownHandler handleHomeEnd handleUpDown onKeyDown cur state tagName key
     = Inr \<lparr>focused = None, handled = False, delegated = onKeyDown\<rparr>"
  by (auto simp: onKeyDownHandler_def)

theorem input_target_ignored_witness:
  "(''TEXTAREA'' = ''INPUT'' \<or> ''TEXTAREA'' = ''TEXTAREA'') \<and>
   onKeyDownHandler True True False line_cur \<lparr>activeRef = Obj 1, refs = [0, 1, 2]\<rparr>
       ''TEXTAREA'' Key_ARROW_DOWN
     = Inr \<lparr>focused = None, handled = False, delegated = False\<rparr>"
  using input_target_ignored [of "''TEXTAREA''" True True False line_cur
      "\<lparr>activeRef = Obj 1, refs = [0, 1, 2]\<rparr>" Key_ARROW_DOWN]
  by simp

text \<open>
  C5. The handler never moves past either end of the list: with the active ref at index
  0 the key ArrowUp focuses nothing, and with the active ref at the last index the key
  ArrowDown focuses nothing. This holds for every target and every setting of the
  properties, and the handler does not throw.
\<close>

theorem moveFocus_boundaries:
  "(indexOf (refs state) (activeRef state) = 0 \<longrightarrow>
      (\<exists>out. onKeyDownHandler handleHomeEnd handleUpDown onKeyDown cur state tagName
                 Key_ARROW_UP = Inr out \<and> focused out = None)) \<and>
   (indexOf (refs state) (activeRef state) = int (length (refs state)) - 1 \<longrightarrow>
      (\<exists>out. onKeyDownHandler handleHomeEnd handleUpDown onKeyDown cur state tagName
                 Key_ARROW_DOWN = Inr out \<and> focused out = None))"
  by (simp add: onKeyDownHandler_def keySwitch_def key_defs)

theorem moveFocus_boundaries_witness:
  "indexOf (refs \<lparr>activeRef = Obj 0, refs = [0, 1, 2]\<rparr>)
      (activeRef \<lparr>activeRef = Obj 0, refs = [0, 1, 2]\<rparr>) = 0 \<and>
   indexOf (refs \<lparr>activeRef = Obj 2, refs = [0, 1, 2]\<rparr>)
      (activeRef \<lparr>activeRef = Obj 2, refs = [0, 1, 2]\<rparr>)
     = int (length (refs \<lparr>activeRef = Obj 2, refs = [0, 1, 2]\<rparr>)) - 1 \<and>
   (\<exists>out. onKeyDownHandler True True False line_cur \<lparr>activeRef = Obj 0, refs = [0, 1, 2]\<rparr>
              ''DIV'' Key_ARROW_UP = Inr out \<and> focused out = None) \<and>
   (\<exists>out. onKeyDownHandler True True False line_cur \<lparr>activeRef = Obj 2, refs = [0, 1, 2]\<rparr>
              ''DIV'' Key_ARROW_DOWN = Inr out \<and> focused out = None)"
  using
    moveFocus_boundaries [of "\<lparr>activeRef = Obj 0, refs = [0, 1, 2]\<rparr>" True True False
      line_cur "''DIV''"]
    moveFocus_boundaries [of "\<lparr>activeRef = Obj 2, refs = [0, 1, 2]\<rparr>" True True False
      line_cur "''DIV''"]
  by (simp add: indexOf_def)

text \<open>
  The sentence behind C8 has the Home key focus the first ref of every registry that is
  not empty. The handler does so only behind two guards: the \<open>handleHomeEnd\<close> property
  of the provider, which is off when it is not given, and the test on the tag of the
  target. With the properties left out, Home focuses nothing and the event is not
  handled.
\<close>

theorem navigation_keys_unguarded_counterexample:
  "refs \<lparr>activeRef = Obj 1, refs = [0, 1, 2]\<rparr> \<noteq> [] \<and>
   onKeyDownHandler False False False line_cur \<lparr>activeRef = Obj 1, refs = [0, 1, 2]\<rparr>
       ''DIV'' Key_HOME
     = Inr \<lparr>focused = None, handled = False, delegated = False\<rparr>"
  by (simp add: onKeyDownHandler_def keySwitch_def key_defs)

text \<open>
  C8, as the code has it. Let the target be neither an \<open>INPUT\<close> nor a \<open>TEXTAREA\<close>
  element, the list not empty, and every ref of it point at an element. If
  \<open>handleHomeEnd\<close> is set, Home focuses the first ref and End the last. If
  \<open>handleUpDown\<close> is set and the active ref is at an interior index, ArrowUp focuses
  the ref before it and ArrowDown the ref after it. The event is handled in each case.
\<close>

theorem navigation_keys:
  assumes "tagName \<noteq> ''INPUT''" and "tagName \<noteq> ''TEXTAREA''"
    and "refs state \<noteq> []" and "mounted cur (refs state)"
  shows "(handleHomeEnd \<longrightarrow>
            onKeyDownHandler handleHomeEnd handleUpDown onKeyDown cur state tagName Key_HOME
              = Inr \<lparr>focused = Some (hd (refs state)), handled = True, delegated = False\<rparr> \<and>
            onKeyDownHandler handleHomeEnd handleUpDown onKeyDown cur state tagName Key_END
              = Inr \<lparr>focused = Some (last (refs state)), handled = True, delegated = False\<rparr>) \<and>
         (handleUpDown \<and> 0 < indexOf (refs state) (activeRef state) \<and>
          indexOf (refs state) (activeRef state) < int (length (refs state)) - 1 \<longrightarrow>
            onKeyDownHandler handleHomeEnd handleUpDown onKeyDown cur state tagName Key_ARROW_UP
              = Inr \<lparr>focused = Some (refs state ! nat (indexOf (refs state) (activeRef state) - 1)),
                     handled = True, delegated = False\<rparr> \<and>
            onKeyDownHandler handleHomeEnd handleUpDown onKeyDown cur state tagName Key_ARROW_DOWN
              = Inr \<lparr>focused = Some (refs state ! nat (indexOf (refs state) (activeRef state) + 1)),
                     handled = True, delegated = False\<rparr>)"
proof -
  let ?rs = "refs state"
  let ?idx = "indexOf ?rs (activeRef state)"
  have len: "0 < length ?rs" using assms(3) by simp
  have first: "focus_at cur ?rs 0 = Inr (Some (hd ?rs))"
    using focus_at_mounted [of 0 ?rs cur] len assms(3,4) by (simp add: hd_conv_nth)
  have "nat (int (length ?rs) - 1) = length ?rs - 1" by arith
  then have final: "focus_at cur ?rs (int (length ?rs) - 1) = Inr (Some (last ?rs))"
    using focus_at_mounted [of "int (length ?rs) - 1" ?rs cur] len assms(3,4)
    by (simp add: last_conv_nth)
  have up: "focus_at cur ?rs (?idx - 1) = Inr (Some (?rs ! nat (?idx - 1)))"
    if "0 < ?idx"
    using that indexOf_bounds [of ?rs "activeRef state"] assms(4)
    by (intro focus_at_mounted) auto
  have down: "focus_at cur ?rs (?idx + 1) = Inr (Some (?rs ! nat (?idx + 1)))"
    if "0 < ?idx" and "?idx < int (length ?rs) - 1"
    using that assms(4) by (intro focus_at_mounted) auto
  show ?thesis
    using assms(1,2) len first final up down
    by (simp add: onKeyDownHandler_def keySwitch_def key_defs Let_def)
qed

theorem navigation_keys_witness:
  "''DIV'' \<noteq> ''INPUT'' \<and> ''DIV'' \<noteq> ''TEXTAREA'' \<and>
   refs \<lparr>activeRef = Obj 1, refs = [0, 1, 2]\<rparr> \<noteq> [] \<and>
   mounted line_cur (refs \<lparr>activeRef = Obj 1, refs = [0, 1, 2]\<rparr>) \<and>
   0 < indexOf (refs \<lparr>activeRef = Obj 1, refs = [0, 1, 2]\<rparr>)
         (activeRef \<lparr>activeRef = Obj 1, refs = [0, 1, 2]\<rparr>) \<and>
   indexOf (refs \<lparr>activeRef = Obj 1, refs = [0, 1, 2]\<rparr>)
         (activeRef \<lparr>activeRef = Obj 1, refs = [0, 1, 2]\<rparr>)
     < int (length (refs \<lparr>activeRef = Obj 1, refs = [0, 1, 2]\<rparr>)) - 1 \<and>
   onKeyDownHandler True True False line_cur \<lparr>activeRef = Obj 1, refs = [0, 1, 2]\<rparr>
       ''DIV'' Key_HOME = Inr \<lparr>focused = Some 0, handled = True, delegated = False\<rparr> \<and>
   onKeyDownHandler True True False line_cur \<lparr>activeRef = Obj 1, refs = [0, 1, 2]\<rparr>
       ''DIV'' Key_END = Inr \<lparr>focused = Some 2, handled = True, delegated = False\<rparr> \<and>
   onKeyDownHandler True True False line_cur \<lparr>activeRef = Obj 1, refs = [0, 1, 2]\<rparr>
       ''DIV'' Key_ARROW_UP = Inr \<lparr>focused = Some 0, handled = True, delegated = False\<rparr> \<and>
   onKeyDownHandler True True False line_cur \<lparr>activeRef = Obj 1, refs = [0, 1, 2]\<rparr>
       ''DIV'' Key_ARROW_DOWN = Inr \<lparr>focused = Some 2, handled = True, delegated = False\<rparr>"
  using navigation_keys [of "''DIV''" "\<lparr>activeRef = Obj 1, refs = [0, 1, 2]\<rparr>" line_cur
      True True False]
  by (simp add: indexOf_def mounted_def line_cur_def)

text \<open>
  The sentence behind C9 has ArrowDown focus the first ref whenever the active ref is
  not in the list. The same two guards apply: on an \<open>INPUT\<close> target nothing is
  focused.
\<close>

theorem arrow_down_unguarded_counterexample:
  "refs \<lparr>activeRef = Obj 7, refs = [0, 1, 2]\<rparr> \<noteq> [] \<and>
   indexOf (refs \<lparr>activeRef = Obj 7, refs = [0, 1, 2]\<rparr>)
      (activeRef \<lparr>activeRef = Obj 7, refs = [0, 1, 2]\<rparr>) = - 1 \<and>
   onKeyDownHandler True True False line_cur \<lparr>activeRef = Obj 7, refs = [0, 1, 2]\<rparr>
       ''INPUT'' Key_ARROW_DOWN
     = Inr \<lparr>focused = None, handled = False, delegated = False\<rparr>"
  by (simp add: onKeyDownHandler_def indexOf_def)

text \<open>
  C9, as the code has it. Let the list be not empty and the active ref not in it, so
  that \<open>indexOf\<close> gives \<open>-1\<close>. ArrowUp focuses nothing, in every configuration.
  ArrowDown focuses the first ref when the target is neither an \<open>INPUT\<close> nor a
  \<open>TEXTAREA\<close> element, \<open>handleUpDown\<close> is set and the first ref points at an
  element.
\<close>

theorem unregistered_active_arrows:
  assumes "refs state \<noteq> []" and "indexOf (refs state) (activeRef state) = - 1"
  shows "(\<exists>out. onKeyDownHandler handleHomeEnd handleUpDown onKeyDown cur state tagName
                   Key_ARROW_UP = Inr out \<and> focused out = None) \<and>
         (tagName \<noteq> ''INPUT'' \<and> tagName \<noteq> ''TEXTAREA'' \<and> handleUpDown \<and>
          cur (hd (refs state)) \<noteq> None \<longrightarrow>
            onKeyDownHandler handleHomeEnd handleUpDown onKeyDown cur state tagName Key_ARROW_DOWN
              = Inr \<lparr>focused = Some (hd (refs state)), handled = True, delegated = False\<rparr>)"
proof -
  have len: "0 < length (refs state)" using assms(1) by simp
  have first: "focus_at cur (refs state) 0 = Inr (Some (hd (refs state)))"
    if "cur (hd (refs state)) \<noteq> None"
    using that len assms(1) by (auto simp: focus_at_def js_nth_def hd_conv_nth)
  show ?thesis
    using assms(2) len first
    by (auto simp: onKeyDownHandler_def keySwitch_def key_defs Let_def)
qed

theorem unregistered_active_arrows_witness:
  "refs \<lparr>activeRef = Obj 7, refs = [0, 1, 2]\<rparr> \<noteq> [] \<and>
   indexOf (refs \<lparr>activeRef = Obj 7, refs = [0, 1, 2]\<rparr>)
      (activeRef \<lparr>activeRef = Obj 7, refs = [0, 1, 2]\<rparr>) = - 1 \<and>
   ''DIV'' \<noteq> ''INPUT'' \<and> ''DIV'' \<noteq> ''TEXTAREA'' \<and>
   line_cur (hd (refs \<lparr>activeRef = Obj 7, refs = [0, 1, 2]\<rparr>)) \<noteq> None \<and>
   (\<exists>out. onKeyDownHandler True True False line_cur \<lparr>activeRef = Obj 7, refs = [0, 1, 2]\<rparr>
              ''DIV'' Key_ARROW_UP = Inr out \<and> focused out = None) \<and>
   onKeyDownHandler True True False line_cur \<lparr>activeRef = Obj 7, refs = [0, 1, 2]\<rparr>
       ''DIV'' Key_ARROW_DOWN = Inr \<lparr>focused = Some 0, handled = True, delegated = False\<rparr>"
  using unregistered_active_arrows [of "\<lparr>activeRef = Obj 7, refs = [0, 1, 2]\<rparr>" True True
      False line_cur "''DIV''"]
  by (simp add: indexOf_def line_cur_def)

end
